theory Spec2Isabelle
  imports Complex_Main "HOL-Library.Word"
begin

section \<open>Errors\<close>

text \<open>
  The source raises Python exceptions (\<open>TypeError\<close>, \<open>ValueError\<close>, \<open>IndexError\<close>);
  the specification names them by logical kind. The first nine constructors are the kinds
  of the specification's taxonomy. The others are failures of the Python and numpy
  primitives the source calls: \<open>DecodingError\<close> is the \<open>UnicodeDecodeError\<close> of
  \<open>bytes.decode("ascii")\<close>, \<open>ZeroStepError\<close> the \<open>ValueError\<close> of a slice whose step is
  zero, \<open>OutOfBoundsError\<close> the \<open>IndexError\<close> of an integer index outside an array,
  \<open>NoLengthError\<close> the \<open>TypeError\<close> of \<open>len\<close> on a numpy scalar, \<open>NoArraysError\<close> the
  \<open>ValueError\<close> of \<open>np.concatenate\<close> on no arrays, and \<open>ZeroDivisionError\<close> is Python's.
\<close>

datatype error =
    TypeMismatchError
  | DimensionError
  | LengthMismatchError
  | NegativeValueError
  | EncodingError
  | InvalidIndexError
  | EmptyQueryError
  | NotFoundError
  | InvalidArgumentError
  | DecodingError
  | ZeroStepError
  | OutOfBoundsError
  | NoLengthError
  | NoArraysError
  | ZeroDivisionError

section \<open>Python and numpy primitives used by the source\<close>

type_synonym byte = "8 word"

text \<open>
  \<open>text.encode("ascii")\<close> and \<open>bytes.decode("ascii")\<close>: ASCII has the codes below 128.
  A text is a \<open>string\<close>, whose characters have the codes below 256; a Python character
  with a higher code fails to encode as those from 128 on do.
\<close>

definition encode_ascii :: "string \<Rightarrow> error + byte list" where
  "encode_ascii t =
     (if list_all (\<lambda>c. (of_char c :: nat) < 128) t
      then Inr (map (\<lambda>c. word_of_nat (of_char c)) t)
      else Inl EncodingError)"

definition decode_ascii :: "byte list \<Rightarrow> error + string" where
  "decode_ascii bs =
     (if list_all (\<lambda>b. unat b < 128) bs
      then Inr (map (\<lambda>b. char_of (unat b)) bs)
      else Inl DecodingError)"

text \<open>
  A Python slice object \<open>slice(start, stop, step)\<close>; \<open>None\<close> is an absent field.
\<close>

datatype slice =
  Slice (slice_start: "int option") (slice_stop: "int option") (slice_step: "int option")

text \<open>
  \<open>slice.indices(n)\<close>: the step defaults to 1 and must not be zero; a negative bound
  counts from the end; both bounds are clamped to the array.
\<close>

definition clamp_bound :: "int \<Rightarrow> int \<Rightarrow> int \<Rightarrow> int \<Rightarrow> int" where
  "clamp_bound len lower upper v = (if v < 0 then max (v + len) lower else min v upper)"

definition slice_indices :: "slice \<Rightarrow> nat \<Rightarrow> error + (int \<times> int \<times> int)" where
  "slice_indices sl n =
     (let st = (case slice_step sl of None \<Rightarrow> 1 | Some s \<Rightarrow> s) in
      if st = 0 then Inl ZeroStepError
      else
        let len = int n;
            lower = (if st < 0 then - 1 else 0);
            upper = (if st < 0 then len - 1 else len);
            a = (case slice_start sl of
                   None \<Rightarrow> (if st < 0 then upper else lower)
                 | Some v \<Rightarrow> clamp_bound len lower upper v);
            b = (case slice_stop sl of
                   None \<Rightarrow> (if st < 0 then lower else upper)
                 | Some v \<Rightarrow> clamp_bound len lower upper v)
        in Inr (a, b, st))"

text \<open>\<open>range(a, b, st)\<close> for a step that is not zero.\<close>

definition range_len :: "int \<Rightarrow> int \<Rightarrow> int \<Rightarrow> nat" where
  "range_len a b st =
     (if 0 < st then (if a < b then nat ((b - a - 1) div st + 1) else 0)
      else (if b < a then nat ((a - b - 1) div (- st) + 1) else 0))"

definition py_range :: "int \<Rightarrow> int \<Rightarrow> int \<Rightarrow> int list" where
  "py_range a b st = map (\<lambda>k. a + int k * st) [0..<range_len a b st]"

text \<open>\<open>array[slice]\<close>: the elements at the positions of the slice's range.\<close>

definition np_slice :: "'a list \<Rightarrow> slice \<Rightarrow> error + 'a list" where
  "np_slice xs sl =
     (case slice_indices sl (length xs) of
        Inl e \<Rightarrow> Inl e
      | Inr (a, b, st) \<Rightarrow> Inr (map (\<lambda>i. xs ! nat i) (py_range a b st)))"

text \<open>
  \<open>array[i]\<close> for an integer: a negative index counts from the end, and an index outside
  the array raises.
\<close>

definition np_index :: "'a list \<Rightarrow> int \<Rightarrow> error + 'a" where
  "np_index xs i =
     (let n = int (length xs); j = (if i < 0 then i + n else i)
      in if 0 \<le> j \<and> j < n then Inr (xs ! nat j) else Inl OutOfBoundsError)"

text \<open>\<open>list(generator)\<close>: the items in order, or the first exception raised.\<close>

fun collect :: "(error + 'a) list \<Rightarrow> error + 'a list" where
  "collect [] = Inr []"
| "collect (r # rs) =
     (case r of
        Inl e \<Rightarrow> Inl e
      | Inr x \<Rightarrow> (case collect rs of Inl e \<Rightarrow> Inl e | Inr xs \<Rightarrow> Inr (x # xs)))"

text \<open>\<open>array[indices]\<close> for an integer array, \<open>array[mask]\<close> for a boolean array.\<close>

definition np_take :: "'a list \<Rightarrow> int list \<Rightarrow> error + 'a list" where
  "np_take xs idx = collect (map (np_index xs) idx)"

definition np_mask :: "'a list \<Rightarrow> bool list \<Rightarrow> error + 'a list" where
  "np_mask xs m =
     (if length m \<noteq> length xs then Inl OutOfBoundsError
      else Inr (map fst (filter snd (zip xs m))))"

definition np_concatenate :: "'a list list \<Rightarrow> error + 'a list" where
  "np_concatenate segs = (if segs = [] then Inl NoArraysError else Inr (concat segs))"

text \<open>
  \<open>np.array_equal(a, b)\<close> on the quality attribute, which is \<open>None\<close> or a 1-D integer
  array: \<open>None\<close> becomes a 0-d array, so two \<open>None\<close> are equal, \<open>None\<close> and an array
  differ in shape, and two arrays are equal when their shapes are and every element is.
\<close>

fun array_equal :: "int list option \<Rightarrow> int list option \<Rightarrow> bool" where
  "array_equal None None = True"
| "array_equal None (Some ys) = False"
| "array_equal (Some xs) None = False"
| "array_equal (Some xs) (Some ys) =
     (if length xs \<noteq> length ys then False else list_all (\<lambda>(x, y). x = y) (zip xs ys))"

section \<open>The sequence and its construction\<close>

text \<open>
  The concrete class of an instance: \<open>Sequence\<close> itself or one of its subclasses, which
  live outside this file and are told apart by name. The subclasses' own validation is
  not part of this file; every instance is built by \<open>Sequence.__init__\<close>.
\<close>

datatype seq_class = Sequence | Subclass string

text \<open>
  The attributes \<open>_bytes\<close>, \<open>_id\<close>, \<open>_description\<close> and \<open>_quality\<close>. The ownership flag
  \<open>_owns_bytes\<close> and numpy's \<open>writeable\<close> flag are left out: no operation below reads them.
\<close>

record sequence =
  cls :: seq_class
  bytes :: "byte list"
  seq_id :: string
  description :: string
  quality :: "int list option"

text \<open>
  What the constructor accepts as \<open>sequence\<close>: text, a 1-D array of \<open>np.uint8\<close> or
  \<open>'|S1'\<close>, a numpy scalar of one byte, or another \<open>Sequence\<close>. What it accepts as
  \<open>quality\<close>: a scalar (0-d), a vector (1-D) or an array of more dimensions, of which only
  the number of dimensions matters; the values are integers. The \<open>TypeError\<close>s of
  \<open>_set_id\<close>, \<open>_set_description\<close> and \<open>_set_sequence\<close> for an id or description that is not
  a \<open>str\<close>, an array of another dtype or a scalar of another size have no counterpart:
  the types exclude those arguments.
\<close>

datatype raw_input = Text string | Array "byte list" | Scalar byte

datatype seq_input = InRaw raw_input | InSequence sequence

datatype qual_input = QScalar int | QVector "int list" | QMulti nat

definition set_sequence :: "raw_input \<Rightarrow> error + byte list" where
  "set_sequence sequence =
     (case sequence of
        Array a \<Rightarrow> Inr a
      | Text t \<Rightarrow> encode_ascii t
      | Scalar b \<Rightarrow> Inr [b])"

definition set_quality :: "nat \<Rightarrow> qual_input option \<Rightarrow> error + int list option" where
  "set_quality n quality_arg =
     (case quality_arg of
        None \<Rightarrow> Inr None
      | Some (QMulti d) \<Rightarrow> Inl DimensionError
      | Some (QScalar v) \<Rightarrow>
          (if 1 \<noteq> n then Inl LengthMismatchError
           else if v < 0 then Inl NegativeValueError
           else Inr (Some [v]))
      | Some (QVector q) \<Rightarrow>
          (if length q \<noteq> n then Inl LengthMismatchError
           else if list_ex (\<lambda>v. v < 0) q then Inl NegativeValueError
           else Inr (Some q)))"

definition Sequence_init ::
  "seq_class \<Rightarrow> seq_input \<Rightarrow> string \<Rightarrow> string \<Rightarrow> qual_input option \<Rightarrow> error + sequence" where
  "Sequence_init c sequence ident descr quality_arg =
     (let (src, ident', descr', qual') =
            (case sequence of
               InSequence s \<Rightarrow>
                 (Array (bytes s),
                  (if ident = [] then seq_id s else ident),
                  (if descr = [] then description s else descr),
                  (case quality_arg of
                     None \<Rightarrow> map_option QVector (quality s)
                   | Some q \<Rightarrow> Some q))
             | InRaw r \<Rightarrow> (r, ident, descr, quality_arg))
      in case set_sequence src of
           Inl e \<Rightarrow> Inl e
         | Inr b \<Rightarrow>
             (case set_quality (length b) qual' of
                Inl e \<Rightarrow> Inl e
              | Inr q \<Rightarrow>
                  Inr \<lparr>cls = c, bytes = b, seq_id = ident', description = descr',
                       quality = q\<rparr>))"

text \<open>The invariant the constructor establishes.\<close>

definition wf_sequence :: "sequence \<Rightarrow> bool" where
  "wf_sequence s =
     (case quality s of
        None \<Rightarrow> True
      | Some q \<Rightarrow> length q = length (bytes s) \<and> list_all (\<lambda>v. 0 \<le> v) q)"

text \<open>
  \<open>__len__\<close>, \<open>_string\<close>, \<open>__str__\<close> and \<open>_has_quality\<close>. Where the source branches on
  \<open>_has_quality()\<close>, the definitions below take the quality apart by cases.
\<close>

definition seq_len :: "sequence \<Rightarrow> nat" where
  "seq_len s = length (bytes s)"

definition seq_string :: "sequence \<Rightarrow> byte list" where
  "seq_string s = bytes s"

definition seq_str :: "sequence \<Rightarrow> error + string" where
  "seq_str s = decode_ascii (seq_string s)"

definition has_quality :: "sequence \<Rightarrow> bool" where
  "has_quality s = (quality s \<noteq> None)"

text \<open>
  \<open>_to(sequence=..., quality=...)\<close>: a new instance of the same class with the same id
  and description.
\<close>

definition seq_to :: "sequence \<Rightarrow> raw_input \<Rightarrow> qual_input option \<Rightarrow> error + sequence" where
  "seq_to s sequence quality_arg =
     Sequence_init (cls s) (InRaw sequence) (seq_id s) (description s) quality_arg"

text \<open>
  \<open>_munge_to_sequence\<close>: a \<open>Sequence\<close> of the receiver's class is used as it is, one of
  another class is refused, and anything else is wrapped in a plain \<open>Sequence\<close>.
\<close>

definition munge_to_sequence :: "sequence \<Rightarrow> seq_input \<Rightarrow> error + sequence" where
  "munge_to_sequence s other =
     (case other of
        InSequence t \<Rightarrow> (if cls t \<noteq> cls s then Inl TypeMismatchError else Inr t)
      | InRaw r \<Rightarrow> Sequence_init Sequence (InRaw r) [] [] None)"

text \<open>
  Reconstruction from the decoded text, \<open>type(s)(str(s))\<close>: the text of \<open>__str__\<close> handed
  to the constructor of the same class, with every other argument at its default.
\<close>

definition from_decoded_text :: "sequence \<Rightarrow> error + sequence" where
  "from_decoded_text s =
     (case seq_str s of
        Inl e \<Rightarrow> Inl e
      | Inr text \<Rightarrow> Sequence_init (cls s) (InRaw (Text text)) [] [] None)"

section \<open>Equality\<close>

text \<open>
  \<open>equals(other, ignore)\<close>; \<open>ignore\<close> is an iterable of feature names, the empty one by
  default.
\<close>

definition equals :: "sequence \<Rightarrow> sequence \<Rightarrow> string list \<Rightarrow> bool" where
  "equals s other ignore =
     (if ''type'' \<notin> set ignore \<and> cls s \<noteq> cls other then False
      else if ''id'' \<notin> set ignore \<and> seq_id s \<noteq> seq_id other then False
      else if ''description'' \<notin> set ignore \<and> description s \<noteq> description other then False
      else if ''quality'' \<notin> set ignore \<and> \<not> array_equal (quality s) (quality other) then False
      else if ''sequence'' \<notin> set ignore \<and> seq_string s \<noteq> seq_string other then False
      else True)"

section \<open>Match and mismatch vectors\<close>

definition matches :: "sequence \<Rightarrow> seq_input \<Rightarrow> error + bool list" where
  "matches s other_arg =
     (case munge_to_sequence s other_arg of
        Inl e \<Rightarrow> Inl e
      | Inr other \<Rightarrow>
          (if seq_len s \<noteq> seq_len other then Inl LengthMismatchError
           else Inr (map (\<lambda>(x, y). x = y) (zip (bytes s) (bytes other)))))"

definition mismatches :: "sequence \<Rightarrow> seq_input \<Rightarrow> error + bool list" where
  "mismatches s other_arg =
     (case matches s other_arg of
        Inl e \<Rightarrow> Inl e
      | Inr v \<Rightarrow> Inr (map Not v))"

section \<open>Indexing\<close>

text \<open>
  What \<open>__getitem__\<close> is given. An iterable that is not a string is first handed to
  \<open>np.asarray\<close>, which makes an integer array of integers, a boolean array of booleans
  and an array of dtype \<open>object\<close> of a mix that holds slice objects (and of the empty
  generator); the index is modelled after that conversion. \<open>IdxInts\<close> and \<open>IdxMask\<close> also
  stand for an index that already is a numpy array.
\<close>

datatype index_item = ISlice slice | IInt int | IBool bool | IOther

datatype indexable =
    IdxText string
  | IdxBool bool
  | IdxInt int
  | IdxSlice slice
  | IdxInts "int list"
  | IdxMask "bool list"
  | IdxObjects "index_item list"

text \<open>
  \<open>_slices_from_iter(array, indexables)\<close>, consumed by \<open>list\<close>: a slice is used as it is,
  an integer other than a boolean becomes a slice of one element, and anything else raises.
\<close>

definition item_slice :: "index_item \<Rightarrow> error + slice" where
  "item_slice i =
     (case i of
        ISlice sl \<Rightarrow> Inr sl
      | IInt n \<Rightarrow>
          (if n = - 1 then Inr (Slice (Some n) None None)
           else Inr (Slice (Some n) (Some (n + 1)) None))
      | IBool b \<Rightarrow> Inl InvalidIndexError
      | IOther \<Rightarrow> Inl InvalidIndexError)"

fun slices_from_iter :: "'a list \<Rightarrow> index_item list \<Rightarrow> error + 'a list list" where
  "slices_from_iter array [] = Inr []"
| "slices_from_iter array (i # indexables) =
     (case item_slice i of
        Inl e \<Rightarrow> Inl e
      | Inr sl \<Rightarrow>
          (case np_slice array sl of
             Inl e \<Rightarrow> Inl e
           | Inr seg \<Rightarrow>
               (case slices_from_iter array indexables of
                  Inl e \<Rightarrow> Inl e
                | Inr segs \<Rightarrow> Inr (seg # segs))))"

text \<open>
  The end of \<open>__getitem__\<close>: the bytes are indexed, then the quality in the same way when
  there is one, and the new instance is built by \<open>_to\<close>.
\<close>

definition index_store ::
  "sequence \<Rightarrow> error + byte list \<Rightarrow> (int list \<Rightarrow> error + int list) \<Rightarrow> error + sequence" where
  "index_store s seq_result index_quality =
     (case seq_result of
        Inl e \<Rightarrow> Inl e
      | Inr seq \<Rightarrow>
          (case quality s of
             None \<Rightarrow> seq_to s (Array seq) None
           | Some q \<Rightarrow>
               (case index_quality q of
                  Inl e \<Rightarrow> Inl e
                | Inr qual \<Rightarrow> seq_to s (Array seq) (Some (QVector qual)))))"

definition getitem :: "sequence \<Rightarrow> indexable \<Rightarrow> error + sequence" where
  "getitem s indexable =
     (case indexable of
        IdxText t \<Rightarrow> Inl InvalidIndexError
      | IdxBool b \<Rightarrow> Inl InvalidIndexError
      | IdxObjects items \<Rightarrow>
          (if items = [] then index_store s (np_take (bytes s) []) (\<lambda>q. np_take q [])
           else
             (case slices_from_iter (bytes s) items of
                Inl e \<Rightarrow> Inl e
              | Inr segs \<Rightarrow>
                  index_store s (np_concatenate segs)
                    (\<lambda>q. case slices_from_iter q items of
                            Inl e \<Rightarrow> Inl e
                          | Inr qsegs \<Rightarrow> np_concatenate qsegs)))
      | IdxMask m \<Rightarrow>
          (if length m \<noteq> seq_len s then Inl LengthMismatchError
           else index_store s (np_mask (bytes s) m) (\<lambda>q. np_mask q m))
      | IdxInts idx \<Rightarrow> index_store s (np_take (bytes s) idx) (\<lambda>q. np_take q idx)
      | IdxSlice sl \<Rightarrow> index_store s (np_slice (bytes s) sl) (\<lambda>q. np_slice q sl)
      | IdxInt i \<Rightarrow>
          (case np_index (bytes s) i of
             Inl e \<Rightarrow> Inl e
           | Inr b \<Rightarrow>
               (case quality s of
                  None \<Rightarrow> seq_to s (Scalar b) None
                | Some q \<Rightarrow>
                    (case np_index q i of
                       Inl e \<Rightarrow> Inl e
                     | Inr v \<Rightarrow> seq_to s (Scalar b) (Some (QScalar v))))))"

text \<open>
  For stating what indexing selects: the elements a slice selects from an array (none
  when numpy refuses the slice), and, in the specification's words, the segment that an
  element of a mixed iterable stands for: a slice as it is, an integer \<open>i\<close> as the
  slice \<open>[i, i+1)\<close>, except \<open>-1\<close> as the open-ended slice \<open>[-1, end)\<close>.
\<close>

definition slice_elems :: "'a list \<Rightarrow> slice \<Rightarrow> 'a list" where
  "slice_elems xs sl = (case np_slice xs sl of Inl e \<Rightarrow> [] | Inr seg \<Rightarrow> seg)"




section \<open>K-mers\<close>

text \<open>
  \<open>kmers(k, overlap)\<close> is a generator: \<open>kmers_gen\<close> lists what it yields or raises, item
  by item, and \<open>kmers\<close> is the generator consumed by \<open>list\<close>.
\<close>

definition kmers_gen :: "sequence \<Rightarrow> int \<Rightarrow> bool \<Rightarrow> (error + sequence) list" where
  "kmers_gen s k overlap =
     (if k < 1 then [Inl InvalidArgumentError]
      else
        let stride = (if overlap then 1 else k) in
        map (\<lambda>i. getitem s (IdxSlice (Slice (Some i) (Some (i + k)) None)))
          (py_range 0 (int (seq_len s) - k + 1) stride))"

definition kmers :: "sequence \<Rightarrow> int \<Rightarrow> bool \<Rightarrow> error + sequence list" where
  "kmers s k overlap = collect (kmers_gen s k overlap)"

text \<open>
  For stating what \<open>kmers\<close> yields: the window of width \<open>k\<close> at offset \<open>i\<close>, with the
  quality cut in the same way and the class, id and description kept.
\<close>

definition kmer_window :: "sequence \<Rightarrow> int \<Rightarrow> int \<Rightarrow> sequence" where
  "kmer_window s k i =
     s\<lparr>bytes := take (nat k) (drop (nat i) (bytes s)),
       quality := map_option (\<lambda>q. take (nat k) (drop (nat i) q)) (quality s)\<rparr>"

text \<open>
  \<open>collections.Counter\<close> over the decoded k-mers, as the list of its items in the order
  the keys were first seen.
\<close>

fun counter_add :: "string \<Rightarrow> (string \<times> int) list \<Rightarrow> (string \<times> int) list" where
  "counter_add key [] = [(key, 1)]"
| "counter_add key ((k, c) # items) =
     (if k = key then (k, c + 1) # items else (k, c) # counter_add key items)"

definition Counter :: "string list \<Rightarrow> (string \<times> int) list" where
  "Counter keys = foldl (\<lambda>acc key. counter_add key acc) [] keys"

text \<open>True division, \<open>count / num_kmers\<close>, on exact rationals in place of floats.\<close>

definition true_div :: "int \<Rightarrow> int \<Rightarrow> error + rat" where
  "true_div a b = (if b = 0 then Inl ZeroDivisionError else Inr (of_int a / of_int b))"

text \<open>
  The loop \<open>for kmer, count in viewitems(freqs)\<close>, which divides once for each item.
\<close>

fun relative_loop ::
  "(string \<times> int) list \<Rightarrow> int \<Rightarrow> (string \<times> rat) list \<Rightarrow> error + (string \<times> rat) list" where
  "relative_loop [] num_kmers relative_freqs = Inr relative_freqs"
| "relative_loop ((kmer, c) # items) num_kmers relative_freqs =
     (case true_div c num_kmers of
        Inl e \<Rightarrow> Inl e
      | Inr f \<Rightarrow> relative_loop items num_kmers (relative_freqs @ [(kmer, f)]))"

text \<open>
  The result is a \<open>Counter\<close>, or a \<open>defaultdict(float)\<close> when \<open>relative\<close>; reading either
  at a key it does not hold gives zero.
\<close>

datatype frequencies = Counts "(string \<times> int) list" | RelativeFreqs "(string \<times> rat) list"

definition freq_get :: "frequencies \<Rightarrow> string \<Rightarrow> rat" where
  "freq_get f key =
     (case f of
        Counts items \<Rightarrow> (case map_of items key of None \<Rightarrow> 0 | Some c \<Rightarrow> of_int c)
      | RelativeFreqs items \<Rightarrow> (case map_of items key of None \<Rightarrow> 0 | Some v \<Rightarrow> v))"

definition kmer_texts :: "sequence \<Rightarrow> int \<Rightarrow> bool \<Rightarrow> error + string list" where
  "kmer_texts s k overlap =
     collect (map (\<lambda>r. case r of Inl e \<Rightarrow> Inl e | Inr kmer \<Rightarrow> seq_str kmer)
                (kmers_gen s k overlap))"

definition kmer_frequencies :: "sequence \<Rightarrow> int \<Rightarrow> bool \<Rightarrow> bool \<Rightarrow> error + frequencies" where
  "kmer_frequencies s k overlap relative =
     (case kmer_texts s k overlap of
        Inl e \<Rightarrow> Inl e
      | Inr texts \<Rightarrow>
          (let freqs = Counter texts in
           if relative then
             (let num_kmers = (if overlap then int (seq_len s) - k + 1
                               else int (seq_len s) div k)
              in case relative_loop freqs num_kmers [] of
                   Inl e \<Rightarrow> Inl e
                 | Inr relative_freqs \<Rightarrow> Inr (RelativeFreqs relative_freqs))
           else Inr (Counts freqs)))"

section \<open>Searching\<close>

text \<open>
  \<open>bytes.count(sub, start, end)\<close> and \<open>bytes.index(sub, start, end)\<close>. Both first adjust
  the window as CPython does: an absent start is 0 and an absent end the length, a
  negative bound counts from the end and stops at 0, and an end beyond the length is the
  length (a start beyond the length stays where it is).
\<close>

definition adjust_indices :: "int option \<Rightarrow> int option \<Rightarrow> nat \<Rightarrow> int \<times> int" where
  "adjust_indices start_arg end_arg n =
     (let len = int n;
          e = (case end_arg of
                 None \<Rightarrow> len
               | Some v \<Rightarrow> (if len < v then len else if v < 0 then max (v + len) 0 else v));
          b = (case start_arg of
                 None \<Rightarrow> 0
               | Some v \<Rightarrow> (if v < 0 then max (v + len) 0 else v))
      in (b, e))"

definition window :: "'a list \<Rightarrow> int \<Rightarrow> int \<Rightarrow> 'a list" where
  "window xs b e = take (nat (e - b)) (drop (nat b) xs)"

text \<open>
  Counting scans from the left; after an occurrence it goes on behind it, so the
  occurrences counted do not overlap.
\<close>

function count_occ :: "'a list \<Rightarrow> 'a list \<Rightarrow> nat" where
  "count_occ sub xs =
     (if sub = [] \<or> length xs < length sub then 0
      else if take (length sub) xs = sub then Suc (count_occ sub (drop (length sub) xs))
      else count_occ sub (tl xs))"
  by pat_completeness auto
termination
proof (relation "measure (\<lambda>(sub, xs). length xs)")
  fix sub xs :: "'a list"
  assume "\<not> (sub = [] \<or> length xs < length sub)"
  then have "0 < length sub" "0 < length xs"
    by auto
  then show "((sub, drop (length sub) xs), (sub, xs)) \<in> measure (\<lambda>(sub, xs). length xs)"
    and "((sub, tl xs), (sub, xs)) \<in> measure (\<lambda>(sub, xs). length xs)"
    by auto
qed simp


text \<open>
  For stating what is counted: the positions at which the scan of \<open>count_occ\<close> finds an
  occurrence, \<open>pos\<close> being the position of the first element of \<open>xs\<close>.
\<close>

function occ_positions :: "'a list \<Rightarrow> 'a list \<Rightarrow> nat \<Rightarrow> nat list" where
  "occ_positions sub xs pos =
     (if sub = [] \<or> length xs < length sub then []
      else if take (length sub) xs = sub
        then pos # occ_positions sub (drop (length sub) xs) (pos + length sub)
      else occ_positions sub (tl xs) (Suc pos))"
  by pat_completeness auto
termination
proof (relation "measure (\<lambda>(sub, xs, pos). length xs)")
  fix sub xs :: "'a list" and pos :: nat
  assume "\<not> (sub = [] \<or> length xs < length sub)"
  then have "0 < length sub" "0 < length xs"
    by auto
  then show "((sub, drop (length sub) xs, pos + length sub), (sub, xs, pos))
        \<in> measure (\<lambda>(sub, xs, pos). length xs)"
    and "((sub, tl xs, Suc pos), (sub, xs, pos)) \<in> measure (\<lambda>(sub, xs, pos). length xs)"
    by auto
qed simp

declare count_occ.simps [simp del] occ_positions.simps [simp del]

text \<open>
  An occurrence of \<open>sub\<close> in \<open>xs\<close> at position \<open>p\<close> that lies inside the window
  \<open>[lo, hi)\<close>; a list of occurrences in the window that do not overlap, each starting
  at or behind the end of the one before; and what it is for \<open>n\<close> to be the number of
  non-overlapping occurrences in the window: there are \<open>n\<close> occurrences that do not
  overlap, such that every occurrence in the window starts inside one of them (so they
  are the ones a scan from the left finds), and no list of occurrences that do not
  overlap is longer.
\<close>

definition occurs_at :: "'a list \<Rightarrow> 'a list \<Rightarrow> nat \<Rightarrow> nat \<Rightarrow> nat \<Rightarrow> bool" where
  "occurs_at sub xs lo hi p \<longleftrightarrow>
     lo \<le> p \<and> p + length sub \<le> hi \<and> hi \<le> length xs \<and> take (length sub) (drop p xs) = sub"

definition apart_occurrences :: "'a list \<Rightarrow> 'a list \<Rightarrow> nat \<Rightarrow> nat \<Rightarrow> nat list \<Rightarrow> bool" where
  "apart_occurrences sub xs lo hi occ \<longleftrightarrow>
     (\<forall>p \<in> set occ. occurs_at sub xs lo hi p) \<and> sorted_wrt (\<lambda>p q. p + length sub \<le> q) occ"

definition counts_occurrences :: "nat \<Rightarrow> 'a list \<Rightarrow> 'a list \<Rightarrow> nat \<Rightarrow> nat \<Rightarrow> bool" where
  "counts_occurrences n sub xs lo hi \<longleftrightarrow>
     (\<exists>occ. n = length occ \<and> apart_occurrences sub xs lo hi occ \<and>
        (\<forall>p'. occurs_at sub xs lo hi p' \<longrightarrow>
           (\<exists>p \<in> set occ. p \<le> p' \<and> p' < p + length sub))) \<and>
     (\<forall>occ. apart_occurrences sub xs lo hi occ \<longrightarrow> length occ \<le> n)"

text \<open>The window of a search on an array of \<open>n\<close> elements, as positions.\<close>

definition window_lo :: "int option \<Rightarrow> int option \<Rightarrow> nat \<Rightarrow> nat" where
  "window_lo start_arg end_arg n = nat (fst (adjust_indices start_arg end_arg n))"

definition window_hi :: "int option \<Rightarrow> int option \<Rightarrow> nat \<Rightarrow> nat" where
  "window_hi start_arg end_arg n = nat (snd (adjust_indices start_arg end_arg n))"

definition bytes_count :: "'a list \<Rightarrow> 'a list \<Rightarrow> int option \<Rightarrow> int option \<Rightarrow> nat" where
  "bytes_count xs sub start_arg end_arg =
     (let (b, e) = adjust_indices start_arg end_arg (length xs) in
      if e - b < 0 then 0
      else if sub = [] then nat (e - b) + 1
      else count_occ sub (window xs b e))"


text \<open>\<open>len(subsequence)\<close> on what a search is given; a numpy scalar has no length.\<close>

definition operand_len :: "seq_input \<Rightarrow> error + nat" where
  "operand_len x =
     (case x of
        InSequence t \<Rightarrow> Inr (seq_len t)
      | InRaw (Text t) \<Rightarrow> Inr (length t)
      | InRaw (Array a) \<Rightarrow> Inr (length a)
      | InRaw (Scalar b) \<Rightarrow> Inl NoLengthError)"

definition count :: "sequence \<Rightarrow> seq_input \<Rightarrow> int option \<Rightarrow> int option \<Rightarrow> error + nat" where
  "count s subsequence start_arg end_arg =
     (case operand_len subsequence of
        Inl e \<Rightarrow> Inl e
      | Inr n \<Rightarrow>
          (if n = 0 then Inl EmptyQueryError
           else
             (case munge_to_sequence s subsequence of
                Inl e \<Rightarrow> Inl e
              | Inr sub \<Rightarrow>
                  Inr (bytes_count (seq_string s) (seq_string sub) start_arg end_arg))))"


section \<open>Distance\<close>

text \<open>
  A Python float, on exact rationals; \<open>NaN\<close> is what numpy's mean of no elements is.
  \<open>hamming\<close> is \<open>scipy.spatial.distance.hamming\<close> on two arrays of one length: the mean of
  the vector that tells where they differ.
\<close>

datatype pyfloat = Num rat | NaN

definition hamming :: "byte list \<Rightarrow> byte list \<Rightarrow> pyfloat" where
  "hamming u v =
     (if u = [] then NaN
      else Num (of_nat (length (filter (\<lambda>(x, y). x \<noteq> y) (zip u v))) / of_nat (length u)))"

definition distance ::
  "sequence \<Rightarrow> seq_input \<Rightarrow> (byte list \<Rightarrow> byte list \<Rightarrow> pyfloat) option \<Rightarrow> error + pyfloat" where
  "distance s other_arg metric =
     (case munge_to_sequence s other_arg of
        Inl e \<Rightarrow> Inl e
      | Inr other \<Rightarrow>
          (case metric of
             None \<Rightarrow>
               (if seq_len s \<noteq> seq_len other then Inl LengthMismatchError
                else Inr (hamming (bytes s) (bytes other)))
           | Some m \<Rightarrow> Inr (m (bytes s) (bytes other))))"

section \<open>Slices from a regular expression\<close>




text \<open>
  The generator's output: the slices yielded, and the exception that ended it if one did.
  \<open>emit_groups\<close> is the loop over \<open>g\<close>, \<open>emit_matches\<close> the loop over the matches.
\<close>

fun emit_groups :: "nat list \<Rightarrow> (int \<times> int) list \<Rightarrow> slice list \<times> error option" where
  "emit_groups lookup [] = ([], None)"
| "emit_groups lookup ((b, e) # gs) =
     (case np_index lookup b of
        Inl err \<Rightarrow> ([], Some err)
      | Inr first \<Rightarrow>
          (case np_index lookup (e - 1) of
             Inl err \<Rightarrow> ([], Some err)
           | Inr last_pos \<Rightarrow>
               (let (ys, r) = emit_groups lookup gs
                in (Slice (Some (int first)) (Some (int last_pos + 1)) None # ys, r))))"









section \<open>Properties of construction\<close>

text \<open>
  Every instance the constructor returns is well-formed, whatever it was built from: the
  quality is checked against the symbols on every construction.
\<close>

lemma set_quality_wf:
  assumes "set_quality n arg = Inr (Some q)"
  shows "length q = n \<and> list_all (\<lambda>v. 0 \<le> v) q"
proof (cases arg)
  case None
  with assms show ?thesis
    by (simp add: set_quality_def)
next
  case (Some a)
  with assms show ?thesis
    by (cases a) (auto simp: set_quality_def list_ex_iff list_all_iff not_less split: if_splits)
qed

lemma Sequence_init_wf:
  assumes "Sequence_init c src ident descr arg = Inr s"
  shows "wf_sequence s"
proof (cases "quality s")
  case None
  then show ?thesis
    by (simp add: wf_sequence_def)
next
  case (Some q)
  from assms obtain r a b where "set_sequence r = Inr b" "set_quality (length b) a = Inr (quality s)"
    and "bytes s = b"
    by (auto simp: Sequence_init_def Let_def split: seq_input.splits sum.splits)
  with Some set_quality_wf [of "length b" a q] show ?thesis
    by (simp add: wf_sequence_def)
qed

section \<open>Properties of ranges and slices\<close>

lemma length_py_range [simp]: "length (py_range a b st) = range_len a b st"
  by (simp add: py_range_def)

lemma nth_py_range: "j < range_len a b st \<Longrightarrow> py_range a b st ! j = a + int j * st"
  by (simp add: py_range_def)

lemma range_len_unit: "range_len a b 1 = nat (b - a)"
  by (simp add: range_len_def)

lemma np_slice_window:
  assumes "0 \<le> i" "0 \<le> k"
  shows "np_slice xs (Slice (Some i) (Some (i + k)) None) = Inr (take (nat k) (drop (nat i) xs))"
proof -
  let ?n = "int (length xs)"
  let ?a = "min i ?n" and ?b = "min (i + k) ?n"
  have ind: "slice_indices (Slice (Some i) (Some (i + k)) None) (length xs) = Inr (?a, ?b, 1)"
    using assms by (simp add: slice_indices_def clamp_bound_def Let_def)
  have len: "range_len ?a ?b 1 = min (nat k) (length xs - nat i)"
    unfolding range_len_unit using assms by linarith
  have "map (\<lambda>j. xs ! nat j) (py_range ?a ?b 1) = take (nat k) (drop (nat i) xs)"
  proof (rule nth_equalityI)
    show "length (map (\<lambda>j. xs ! nat j) (py_range ?a ?b 1)) = length (take (nat k) (drop (nat i) xs))"
      by (simp add: len)
  next
    fix j
    assume "j < length (map (\<lambda>j. xs ! nat j) (py_range ?a ?b 1))"
    then have j: "j < min (nat k) (length xs - nat i)"
      by (simp add: len)
    then have "j < range_len ?a ?b 1"
      by (simp only: len)
    then have "map (\<lambda>j. xs ! nat j) (py_range ?a ?b 1) ! j = xs ! nat (?a + int j)"
      by (simp add: nth_py_range)
    also have "nat (?a + int j) = nat i + j"
      using j assms by linarith
    also have "xs ! (nat i + j) = take (nat k) (drop (nat i) xs) ! j"
    proof -
      from j have "nat i \<le> length xs" by linarith
      with j show ?thesis by simp
    qed
    finally show "map (\<lambda>j. xs ! nat j) (py_range ?a ?b 1) ! j = take (nat k) (drop (nat i) xs) ! j" .
  qed
  with ind show ?thesis
    by (simp add: np_slice_def)
qed

lemma mult_le_of_le_div:
  assumes "0 < (t::int)" "int k \<le> x div t"
  shows "int k * t \<le> x"
proof -
  have "int k * t \<le> (x div t) * t"
    using assms by (intro mult_right_mono) auto
  also have "\<dots> \<le> x"
    using div_mult_mod_eq [of x t] pos_mod_sign [of t x] assms(1) by linarith
  finally show ?thesis .
qed

lemma py_range_bounds_up:
  assumes "0 < st" "i \<in> set (py_range a b st)"
  shows "a \<le> i \<and> i < b"
proof -
  from assms(2) obtain k where k: "k < range_len a b st" and i: "i = a + int k * st"
    by (auto simp: py_range_def)
  from k assms(1) have "int k \<le> (b - a - 1) div st"
    by (auto simp: range_len_def split: if_splits)
  then have "int k * st \<le> b - a - 1"
    using assms(1) by (rule mult_le_of_le_div [rotated])
  with i assms(1) show ?thesis
    by simp
qed

lemma py_range_bounds_down:
  assumes "st < 0" "i \<in> set (py_range a b st)"
  shows "b < i \<and> i \<le> a"
proof -
  from assms(2) obtain k where k: "k < range_len a b st" and i: "i = a + int k * st"
    by (auto simp: py_range_def)
  from k assms(1) have "int k \<le> (a - b - 1) div (- st)"
    by (auto simp: range_len_def split: if_splits)
  then have "int k * (- st) \<le> a - b - 1"
    using assms(1) by (intro mult_le_of_le_div) auto
  moreover have "0 \<le> int k * (- st)"
    using assms(1) by (intro mult_nonneg_nonneg) auto
  ultimately show ?thesis
    using i by simp
qed

lemma slice_positions_in_range:
  assumes "slice_indices sl n = Inr (a, b, st)" "i \<in> set (py_range a b st)"
  shows "0 \<le> i \<and> i < int n"
proof (cases "0 < st")
  case True
  with assms(1) have "0 \<le> a" "b \<le> int n"
    by (auto simp: slice_indices_def clamp_bound_def Let_def split: if_splits option.splits)
  with py_range_bounds_up [OF True assms(2)] show ?thesis
    by simp
next
  case False
  with assms(1) have neg: "st < 0"
    by (auto simp: slice_indices_def Let_def split: if_splits)
  with assms(1) have "- 1 \<le> b" "a \<le> int n - 1"
    by (auto simp: slice_indices_def clamp_bound_def Let_def split: if_splits option.splits)
  with py_range_bounds_down [OF neg assms(2)] show ?thesis
    by simp
qed

lemma seq_to_array_None:
  "seq_to s (Array seg) None = Inr (s\<lparr>bytes := seg, quality := None\<rparr>)"
  by (cases s) (simp add: seq_to_def Sequence_init_def set_sequence_def set_quality_def)

lemma seq_to_array_Some:
  "length q = length seg \<Longrightarrow> list_all (\<lambda>v. 0 \<le> v) q \<Longrightarrow>
   seq_to s (Array seg) (Some (QVector q)) = Inr (s\<lparr>bytes := seg, quality := Some q\<rparr>)"
  by (cases s)
    (auto simp: seq_to_def Sequence_init_def set_sequence_def set_quality_def list_ex_iff list_all_iff)

lemma np_slice_error_iff: "np_slice xs sl = Inl e \<longleftrightarrow> slice_step sl = Some 0 \<and> e = ZeroStepError"
  by (auto simp: np_slice_def slice_indices_def Let_def split: option.splits sum.splits)

lemma np_slice_elems: "slice_step sl \<noteq> Some 0 \<Longrightarrow> np_slice xs sl = Inr (slice_elems xs sl)"
  using np_slice_error_iff [of xs sl] by (cases "np_slice xs sl") (auto simp: slice_elems_def)

lemma slice_elems_subset: "set (slice_elems xs sl) \<subseteq> set xs"
proof (cases "slice_indices sl (length xs)")
  case (Inl e)
  then show ?thesis by (simp add: slice_elems_def np_slice_def)
next
  case (Inr r)
  obtain a b st where r: "r = (a, b, st)" by (cases r)
  have "i \<in> set (py_range a b st) \<Longrightarrow> xs ! nat i \<in> set xs" for i
    using slice_positions_in_range [of sl "length xs" a b st i] Inr r
    by (auto intro!: nth_mem)
  with Inr r show ?thesis
    by (auto simp: slice_elems_def np_slice_def)
qed

lemma length_slice_elems:
  "length q = length xs \<Longrightarrow> length (slice_elems q sl) = length (slice_elems xs sl)"
  by (simp add: slice_elems_def np_slice_def split: sum.splits prod.splits)

lemma wf_slice_quality:
  assumes "wf_sequence s" "quality s = Some q"
  shows "length (slice_elems q sl) = length (slice_elems (bytes s) sl)"
    and "list_all (\<lambda>v. 0 \<le> v) (slice_elems q sl)"
proof -
  from assms have len: "length q = length (bytes s)" and nn: "list_all (\<lambda>v. 0 \<le> v) q"
    by (simp_all add: wf_sequence_def)
  from len show "length (slice_elems q sl) = length (slice_elems (bytes s) sl)"
    by (rule length_slice_elems)
  from nn slice_elems_subset [of q sl] show "list_all (\<lambda>v. 0 \<le> v) (slice_elems q sl)"
    by (auto simp: list_all_iff)
qed

lemma getitem_slice:
  assumes "wf_sequence s" "slice_step sl \<noteq> Some 0"
  shows "getitem s (IdxSlice sl) =
    Inr (s\<lparr>bytes := slice_elems (bytes s) sl,
           quality := map_option (\<lambda>q. slice_elems q sl) (quality s)\<rparr>)"
proof (cases "quality s")
  case None
  then show ?thesis
    using assms(2)
    by (simp add: getitem_def index_store_def np_slice_elems seq_to_array_None)
next
  case (Some q)
  then show ?thesis
    using assms(2) wf_slice_quality [OF assms(1) Some, of sl]
    by (simp add: getitem_def index_store_def np_slice_elems seq_to_array_Some)
qed

lemma slice_elems_window:
  "0 \<le> i \<Longrightarrow> 0 \<le> k \<Longrightarrow>
   slice_elems xs (Slice (Some i) (Some (i + k)) None) = take (nat k) (drop (nat i) xs)"
  by (simp add: slice_elems_def np_slice_window)

lemma collect_map_Inr: "collect (map (\<lambda>x. Inr (g x)) xs) = Inr (map g xs)"
  by (induction xs) simp_all

lemma collect_map_cong:
  "(\<And>x. x \<in> set xs \<Longrightarrow> f x = Inr (g x)) \<Longrightarrow> collect (map f xs) = Inr (map g xs)"
  by (induction xs) simp_all

lemma kmers_eq:
  assumes "wf_sequence s" "1 \<le> k"
  shows "kmers s k overlap =
    Inr (map (kmer_window s k) (py_range 0 (int (seq_len s) - k + 1) (if overlap then 1 else k)))"
proof -
  let ?st = "if overlap then 1 else k"
  have "getitem s (IdxSlice (Slice (Some i) (Some (i + k)) None)) = Inr (kmer_window s k i)"
    if "i \<in> set (py_range 0 (int (seq_len s) - k + 1) ?st)" for i
  proof -
    from assms(2) have "0 < ?st" by simp
    from py_range_bounds_up [OF this that] have "0 \<le> i" by simp
    with assms show ?thesis
      by (simp add: getitem_slice slice_elems_window kmer_window_def)
  qed
  then show ?thesis
    using assms(2) by (simp add: kmers_def kmers_gen_def collect_map_cong)
qed

section \<open>Properties of equality\<close>

lemma array_equal_iff: "array_equal p q \<longleftrightarrow> p = q"
  by (cases p; cases q) (auto simp: list_all_iff list_eq_iff_zip_eq)

text \<open>
  Claim C4. For every pair of sequences and every list of ignored feature names,
  \<open>equals\<close> is true exactly when every check that is not ignored passes: the classes
  are the same, the ids are, the descriptions are, the qualities are (both absent, or
  both present with the same length and the same value at every position; one present
  and one absent is a mismatch, not a failure), and the symbols are.
\<close>

theorem equals_checks:
  "equals a b ignore \<longleftrightarrow>
     (''type'' \<in> set ignore \<or> cls a = cls b) \<and>
     (''id'' \<in> set ignore \<or> seq_id a = seq_id b) \<and>
     (''description'' \<in> set ignore \<or> description a = description b) \<and>
     (''quality'' \<in> set ignore \<or>
        (case (quality a, quality b) of
           (None, None) \<Rightarrow> True
         | (Some p, Some q) \<Rightarrow> length p = length q \<and> (\<forall>i<length p. p ! i = q ! i)
         | _ \<Rightarrow> False)) \<and>
     (''sequence'' \<in> set ignore \<or> bytes a = bytes b)"
proof -
  have q: "array_equal (quality a) (quality b) \<longleftrightarrow>
      (case (quality a, quality b) of
         (None, None) \<Rightarrow> True
       | (Some p, Some q) \<Rightarrow> length p = length q \<and> (\<forall>i<length p. p ! i = q ! i)
       | _ \<Rightarrow> False)"
    by (cases "quality a"; cases "quality b")
      (auto simp: array_equal_iff list_eq_iff_nth_eq simp del: array_equal.simps)
  show ?thesis
    unfolding equals_def seq_string_def q by (simp only: split: if_split) blast
qed

theorem equals_checks_witness:
  "equals \<lparr>cls = Sequence, bytes = [71, 71, 85], seq_id = '''', description = '''', quality = None\<rparr>
      \<lparr>cls = Sequence, bytes = [71, 71, 85], seq_id = ''abc'', description = '''',
        quality = Some [1, 5, 3]\<rparr> [''quality'', ''id'']
   \<and> \<not> equals \<lparr>cls = Sequence, bytes = [71, 71, 85], seq_id = '''', description = '''', quality = None\<rparr>
      \<lparr>cls = Sequence, bytes = [71, 71, 85], seq_id = ''abc'', description = '''',
        quality = Some [1, 5, 3]\<rparr> [''id'']
   \<and> equals \<lparr>cls = Sequence, bytes = [71], seq_id = ''abc'', description = '''', quality = Some [7]\<rparr>
      \<lparr>cls = Sequence, bytes = [71], seq_id = ''abc'', description = '''', quality = Some [7]\<rparr> []"
  unfolding equals_checks by simp

section \<open>Properties of the match vectors\<close>

lemma map2_eq_self: "map (\<lambda>(x, y). x = y) (zip xs xs) = replicate (length xs) True"
  by (induction xs) simp_all

text \<open>
  Claim C7. For two sequences of the same class, \<open>matches\<close> and \<open>mismatches\<close> fail with
  \<open>LengthMismatchError\<close> when the lengths differ. When the lengths are equal, \<open>matches\<close>
  returns a vector of that length which is true at a position exactly when the symbols
  there are equal, and \<open>mismatches\<close> returns its pointwise negation. A sequence matched
  with itself gives the all-true vector, and the all-false one for \<open>mismatches\<close>.
\<close>

theorem matches_mismatches:
  "cls b = cls a \<longrightarrow>
     (length (bytes a) \<noteq> length (bytes b) \<longrightarrow>
        matches a (InSequence b) = Inl LengthMismatchError \<and>
        mismatches a (InSequence b) = Inl LengthMismatchError) \<and>
     (length (bytes a) = length (bytes b) \<longrightarrow>
        (\<exists>v. matches a (InSequence b) = Inr v \<and>
             length v = length (bytes a) \<and>
             (\<forall>i<length v. v ! i \<longleftrightarrow> bytes a ! i = bytes b ! i) \<and>
             mismatches a (InSequence b) = Inr (map Not v))) \<and>
     matches a (InSequence a) = Inr (replicate (length (bytes a)) True) \<and>
     mismatches a (InSequence a) = Inr (replicate (length (bytes a)) False)"
  by (simp add: matches_def mismatches_def munge_to_sequence_def seq_len_def map2_eq_self)

theorem matches_mismatches_witness:
  "matches \<lparr>cls = Sequence, bytes = [71, 71, 85, 67], seq_id = '''', description = '''', quality = None\<rparr>
      (InSequence \<lparr>cls = Sequence, bytes = [71, 65], seq_id = '''', description = '''', quality = None\<rparr>)
     = Inl LengthMismatchError
   \<and> matches \<lparr>cls = Sequence, bytes = [71, 71, 85, 67], seq_id = '''', description = '''', quality = None\<rparr>
      (InSequence \<lparr>cls = Sequence, bytes = [71, 71, 85, 67], seq_id = '''', description = '''', quality = None\<rparr>)
     = Inr [True, True, True, True]"
  using matches_mismatches [of "\<lparr>cls = Sequence, bytes = [71, 65], seq_id = '''', description = '''', quality = None\<rparr>"
      "\<lparr>cls = Sequence, bytes = [71, 71, 85, 67], seq_id = '''', description = '''', quality = None\<rparr>"]
    matches_mismatches [of "\<lparr>cls = Sequence, bytes = [71, 71, 85, 67], seq_id = '''', description = '''', quality = None\<rparr>"
      "\<lparr>cls = Sequence, bytes = [71, 71, 85, 67], seq_id = '''', description = '''', quality = None\<rparr>"]
  by (simp add: numeral_eq_Suc)

section \<open>Properties of the k-mers\<close>

lemma range_len_overlap: "int (range_len 0 (n - k + 1) 1) = max 0 (n - k + 1)"
  by (simp add: range_len_unit)

lemma range_len_no_overlap:
  assumes "1 \<le> k" "0 \<le> n"
  shows "int (range_len 0 (n - k + 1) k) = n div k"
proof (cases "k \<le> n")
  case True
  have "(n - k + k) div k = (n - k) div k + 1"
    using assms(1) by (intro div_add_self2) simp
  then have "(n - k) div k + 1 = n div k"
    by simp
  moreover have "0 \<le> (n - k) div k"
    using True assms(1) by (simp add: pos_imp_zdiv_nonneg_iff)
  ultimately show ?thesis
    using True assms(1) by (simp add: range_len_def)
next
  case False
  with assms show ?thesis
    by (simp add: range_len_def div_pos_pos_trivial)
qed

lemma kmer_window_length:
  assumes "1 \<le> k" "0 < st" "i \<in> set (py_range 0 (int (seq_len s) - k + 1) st)"
  shows "length (bytes (kmer_window s k i)) = nat k"
proof -
  from py_range_bounds_up [OF assms(2,3)] have "0 \<le> i" "i + k \<le> int (length (bytes s))"
    by (simp_all add: seq_len_def)
  then show ?thesis
    using assms(1) by (simp add: kmer_window_def)
qed

text \<open>
  Claim C3. For a well-formed sequence of length \<open>N\<close>, \<open>kmers\<close> fails with
  \<open>InvalidArgumentError\<close> exactly when \<open>k < 1\<close>. For \<open>k \<ge> 1\<close>, with overlap it yields
  \<open>max 0 (N - k + 1)\<close> windows, the \<open>j\<close>-th at offset \<open>j\<close>; without overlap it yields
  \<open>N div k\<close> windows, the \<open>j\<close>-th at offset \<open>j * k\<close>; every window has \<open>k\<close> symbols; and
  a sequence shorter than \<open>k\<close> yields no window and no error.
\<close>

theorem kmers_windows:
  "wf_sequence s \<longrightarrow>
     (kmers s k overlap = Inl InvalidArgumentError \<longleftrightarrow> k < 1) \<and>
     (1 \<le> k \<longrightarrow>
        (\<exists>ws. kmers s k True = Inr ws \<and>
              int (length ws) = max 0 (int (seq_len s) - k + 1) \<and>
              (\<forall>j<length ws. ws ! j = kmer_window s k (int j) \<and>
                              length (bytes (ws ! j)) = nat k)) \<and>
        (\<exists>ws. kmers s k False = Inr ws \<and>
              int (length ws) = int (seq_len s) div k \<and>
              (\<forall>j<length ws. ws ! j = kmer_window s k (int j * k) \<and>
                              length (bytes (ws ! j)) = nat k)) \<and>
        (int (seq_len s) < k \<longrightarrow> kmers s k overlap = Inr []))"
proof (intro impI conjI)
  assume wf: "wf_sequence s"
  show "kmers s k overlap = Inl InvalidArgumentError \<longleftrightarrow> k < 1"
  proof (cases "k < 1")
    case True
    then show ?thesis by (simp add: kmers_def kmers_gen_def)
  next
    case False
    then show ?thesis using kmers_eq [OF wf, of k overlap] by simp
  qed
  assume k: "1 \<le> k"
  let ?n = "int (seq_len s)"
  have windows: "\<exists>ws. kmers s k ov = Inr ws \<and>
      length ws = range_len 0 (?n - k + 1) st \<and>
      (\<forall>j<length ws. ws ! j = kmer_window s k (int j * st) \<and>
                      length (bytes (ws ! j)) = nat k)"
    if st_def: "st = (if ov then 1 else k)" for ov st
  proof -
    let ?r = "py_range 0 (?n - k + 1) st"
    have st: "0 < st" using k st_def by simp
    have eq: "kmers s k ov = Inr (map (kmer_window s k) ?r)"
      using kmers_eq [OF wf k, of ov] by (simp only: st_def)
    have per: "map (kmer_window s k) ?r ! j = kmer_window s k (int j * st)"
      and len: "length (bytes (kmer_window s k (int j * st))) = nat k"
      if "j < range_len 0 (?n - k + 1) st" for j
    proof -
      from that have mem: "?r ! j \<in> set ?r"
        by (intro nth_mem) simp
      from that have val: "?r ! j = int j * st"
        by (simp add: nth_py_range)
      from that show "map (kmer_window s k) ?r ! j = kmer_window s k (int j * st)"
        by (simp add: val)
      from kmer_window_length [OF k st mem] show "length (bytes (kmer_window s k (int j * st))) = nat k"
        by (simp only: val)
    qed
    show ?thesis
      by (rule exI [of _ "map (kmer_window s k) ?r"]) (use eq per len in simp)
  qed
  from windows [of 1 True] show "\<exists>ws. kmers s k True = Inr ws \<and>
      int (length ws) = max 0 (?n - k + 1) \<and>
      (\<forall>j<length ws. ws ! j = kmer_window s k (int j) \<and> length (bytes (ws ! j)) = nat k)"
    using range_len_overlap [of ?n k] by auto
  from windows [of k False] show "\<exists>ws. kmers s k False = Inr ws \<and>
      int (length ws) = ?n div k \<and>
      (\<forall>j<length ws. ws ! j = kmer_window s k (int j * k) \<and> length (bytes (ws ! j)) = nat k)"
    using range_len_no_overlap [OF k, of ?n] by auto
  assume "?n < k"
  then have "range_len 0 (?n - k + 1) (if overlap then 1 else k) = 0"
    using k by (simp add: range_len_def)
  with windows [of "if overlap then 1 else k" overlap] show "kmers s k overlap = Inr []"
    by auto
qed

theorem kmers_windows_witness:
  "wf_sequence \<lparr>cls = Sequence, bytes = [65, 67, 65, 67, 71, 65, 67, 71, 84, 84], seq_id = [],
       description = [], quality = Some [1, 2, 3, 4, 5, 6, 7, 8, 9, 0]\<rparr> \<and>
   (\<exists>ws. kmers \<lparr>cls = Sequence, bytes = [65, 67, 65, 67, 71, 65, 67, 71, 84, 84], seq_id = [],
       description = [], quality = Some [1, 2, 3, 4, 5, 6, 7, 8, 9, 0]\<rparr> 4 True = Inr ws \<and>
       int (length ws) = 7) \<and>
   (\<exists>ws. kmers \<lparr>cls = Sequence, bytes = [65, 67, 65, 67, 71, 65, 67, 71, 84, 84], seq_id = [],
       description = [], quality = Some [1, 2, 3, 4, 5, 6, 7, 8, 9, 0]\<rparr> 4 False = Inr ws \<and>
       int (length ws) = 2) \<and>
   kmers \<lparr>cls = Sequence, bytes = [65, 67, 65, 67, 71, 65, 67, 71, 84, 84], seq_id = [],
       description = [], quality = Some [1, 2, 3, 4, 5, 6, 7, 8, 9, 0]\<rparr> 0 True
     = Inl InvalidArgumentError \<and>
   kmers \<lparr>cls = Sequence, bytes = [65, 67, 65, 67, 71, 65, 67, 71, 84, 84], seq_id = [],
       description = [], quality = Some [1, 2, 3, 4, 5, 6, 7, 8, 9, 0]\<rparr> 11 False = Inr []"
proof -
  let ?s = "\<lparr>cls = Sequence, bytes = [65, 67, 65, 67, 71, 65, 67, 71, 84, 84], seq_id = [],
       description = [], quality = Some [1, 2, 3, 4, 5, 6, 7, 8, 9, 0]\<rparr>"
  have wf: "wf_sequence ?s"
    by (simp add: wf_sequence_def)
  have len: "int (seq_len ?s) = 10"
    by (simp add: seq_len_def)
  from wf len kmers_windows [of ?s 4 True] kmers_windows [of ?s 0 True]
    kmers_windows [of ?s 11 False]
  show ?thesis
    by auto
qed

section \<open>Properties of the k-mer frequencies\<close>

lemma kmers_gen_short:
  assumes "1 \<le> k" "int (seq_len s) < k"
  shows "kmers_gen s k overlap = []"
  using assms by (simp add: kmers_gen_def py_range_def range_len_def)

text \<open>
  Claim C10. For a sequence of length \<open>N\<close> and \<open>k \<ge> 1\<close> with \<open>N < k\<close>, and either overlap
  setting, no k-mer is tabulated, so the loop that divides by the total runs over no item:
  whatever the total is (it is \<open>N - k + 1 \<le> 0\<close> with overlap and \<open>N div k = 0\<close> without),
  no division happens and \<open>kmer_frequencies\<close> with \<open>relative\<close> returns the empty mapping,
  which reads as zero at every key.
\<close>

theorem kmer_frequencies_short:
  "1 \<le> k \<and> int (seq_len s) < k \<longrightarrow>
     kmer_texts s k overlap = Inr [] \<and>
     Counter [] = [] \<and>
     (\<forall>num_kmers. relative_loop (Counter []) num_kmers [] = Inr []) \<and>
     (if overlap then int (seq_len s) - k + 1 else int (seq_len s) div k) \<le> 0 \<and>
     kmer_frequencies s k overlap True = Inr (RelativeFreqs []) \<and>
     (\<forall>key. freq_get (RelativeFreqs []) key = 0)"
proof (intro impI, elim conjE)
  assume k: "1 \<le> k" and short: "int (seq_len s) < k"
  have texts: "kmer_texts s k overlap = Inr []"
    by (simp add: kmer_texts_def kmers_gen_short [OF k short])
  have counter: "Counter [] = []"
    by (simp add: Counter_def)
  have total: "(if overlap then int (seq_len s) - k + 1 else int (seq_len s) div k) \<le> 0"
    using k short by (simp add: div_pos_pos_trivial)
  have freqs: "kmer_frequencies s k overlap True = Inr (RelativeFreqs [])"
    by (simp add: kmer_frequencies_def texts counter)
  show "kmer_texts s k overlap = Inr [] \<and>
     Counter [] = [] \<and>
     (\<forall>num_kmers. relative_loop (Counter []) num_kmers [] = Inr []) \<and>
     (if overlap then int (seq_len s) - k + 1 else int (seq_len s) div k) \<le> 0 \<and>
     kmer_frequencies s k overlap True = Inr (RelativeFreqs []) \<and>
     (\<forall>key. freq_get (RelativeFreqs []) key = 0)"
    using texts counter total freqs by (simp add: freq_get_def)
qed

theorem kmer_frequencies_short_witness:
  "kmer_frequencies \<lparr>cls = Sequence, bytes = [65, 67], seq_id = [], description = [],
       quality = None\<rparr> 3 True True = Inr (RelativeFreqs []) \<and>
   kmer_frequencies \<lparr>cls = Sequence, bytes = [65, 67], seq_id = [], description = [],
       quality = None\<rparr> 3 False True = Inr (RelativeFreqs []) \<and>
   kmer_frequencies \<lparr>cls = Sequence, bytes = [], seq_id = [], description = [],
       quality = None\<rparr> 1 True True = Inr (RelativeFreqs []) \<and>
   freq_get (RelativeFreqs []) ''ACA'' = 0"
  using
    kmer_frequencies_short [of 3 "\<lparr>cls = Sequence, bytes = [65, 67], seq_id = [],
       description = [], quality = None\<rparr>" True]
    kmer_frequencies_short [of 3 "\<lparr>cls = Sequence, bytes = [65, 67], seq_id = [],
       description = [], quality = None\<rparr>" False]
    kmer_frequencies_short [of 1 "\<lparr>cls = Sequence, bytes = [], seq_id = [],
       description = [], quality = None\<rparr>" True]
  by (simp add: seq_len_def)

section \<open>Properties of the distance\<close>

lemma Sequence_init_text:
  "encode_ascii t = Inr bs \<Longrightarrow>
   Sequence_init c (InRaw (Text t)) ident descr None =
     Inr \<lparr>cls = c, bytes = bs, seq_id = ident, description = descr, quality = None\<rparr>"
  by (simp add: Sequence_init_def set_sequence_def set_quality_def)

lemma encode_GGUC: "encode_ascii ''GGUC'' = Inr [71, 71, 85, 67]"
  by (simp add: encode_ascii_def)

lemma encode_AGUC: "encode_ascii ''AGUC'' = Inr [65, 71, 85, 67]"
  by (simp add: encode_ascii_def)

lemma mismatch_count:
  assumes "length u = length v"
  shows "length (filter (\<lambda>(x, y). x \<noteq> y) (zip u v)) = card {i. i < length u \<and> u ! i \<noteq> v ! i}"
proof -
  have "{i. i < length (zip u v) \<and> (case zip u v ! i of (x, y) \<Rightarrow> x \<noteq> y)}
      = {i. i < length u \<and> u ! i \<noteq> v ! i}"
    using assms by auto
  then show ?thesis
    by (simp add: length_filter_conv_card)
qed

lemma hamming_fraction:
  assumes "length u = length v" "0 < length u"
  shows "hamming u v = Num (of_nat (card {i. i < length u \<and> u ! i \<noteq> v ! i}) / of_nat (length u))"
  using assms by (auto simp: hamming_def mismatch_count)

text \<open>
  Claim C5. For two sequences of the same class, \<open>distance\<close> with the default metric fails
  with \<open>LengthMismatchError\<close> exactly when the lengths differ; for equal lengths it returns
  the Hamming distance, which for a positive length \<open>N\<close> is the number of positions where
  the symbols differ divided by \<open>N\<close> (it is 1/4 between \<open>GGUC\<close> and \<open>AGUC\<close>). With a
  custom metric the lengths are not compared and the result is the metric applied to the
  two symbol arrays.
\<close>

theorem distance_default_and_custom:
  "cls b = cls a \<longrightarrow>
     (distance a (InSequence b) None = Inl LengthMismatchError
        \<longleftrightarrow> length (bytes a) \<noteq> length (bytes b)) \<and>
     (length (bytes a) = length (bytes b) \<longrightarrow>
        distance a (InSequence b) None = Inr (hamming (bytes a) (bytes b)) \<and>
        (0 < length (bytes a) \<longrightarrow>
           hamming (bytes a) (bytes b) =
             Num (of_nat (card {i. i < length (bytes a) \<and> bytes a ! i \<noteq> bytes b ! i})
                  / of_nat (length (bytes a))))) \<and>
     distance a (InSequence b) (Some m) = Inr (m (bytes a) (bytes b))"
  by (simp add: distance_def munge_to_sequence_def seq_len_def hamming_fraction)

theorem distance_default_and_custom_witness:
  "Sequence_init Sequence (InRaw (Text ''GGUC'')) [] [] None =
     Inr \<lparr>cls = Sequence, bytes = [71, 71, 85, 67], seq_id = [], description = [],
          quality = None\<rparr> \<and>
   Sequence_init Sequence (InRaw (Text ''AGUC'')) [] [] None =
     Inr \<lparr>cls = Sequence, bytes = [65, 71, 85, 67], seq_id = [], description = [],
          quality = None\<rparr> \<and>
   distance \<lparr>cls = Sequence, bytes = [71, 71, 85, 67], seq_id = [], description = [],
        quality = None\<rparr>
     (InSequence \<lparr>cls = Sequence, bytes = [65, 71, 85, 67], seq_id = [], description = [],
        quality = None\<rparr>) None = Inr (Num (1 / 4)) \<and>
   distance \<lparr>cls = Sequence, bytes = [71, 71, 85, 67], seq_id = [], description = [],
        quality = None\<rparr>
     (InSequence \<lparr>cls = Sequence, bytes = [65, 71], seq_id = [], description = [],
        quality = None\<rparr>) None = Inl LengthMismatchError \<and>
   distance \<lparr>cls = Sequence, bytes = [71, 71, 85, 67], seq_id = [], description = [],
        quality = None\<rparr>
     (InSequence \<lparr>cls = Sequence, bytes = [65, 71], seq_id = [], description = [],
        quality = None\<rparr>) (Some (\<lambda>u v. Num (42 / 100))) = Inr (Num (42 / 100))"
  using
    distance_default_and_custom [of
      "\<lparr>cls = Sequence, bytes = [65, 71, 85, 67], seq_id = [], description = [], quality = None\<rparr>"
      "\<lparr>cls = Sequence, bytes = [71, 71, 85, 67], seq_id = [], description = [], quality = None\<rparr>"
      "\<lambda>u v. Num (42 / 100)"]
    distance_default_and_custom [of
      "\<lparr>cls = Sequence, bytes = [65, 71], seq_id = [], description = [], quality = None\<rparr>"
      "\<lparr>cls = Sequence, bytes = [71, 71, 85, 67], seq_id = [], description = [], quality = None\<rparr>"
      "\<lambda>u v. Num (42 / 100)"]
  by (simp add: Sequence_init_text encode_GGUC encode_AGUC hamming_def)

section \<open>Properties of the decoded text\<close>

lemma encode_decode_byte:
  assumes "unat (b :: byte) < 128"
  shows "(of_char (char_of (unat b)) :: nat) < 128"
    and "word_of_nat (of_char (char_of (unat b))) = b"
proof -
  from assms have "(of_char (char_of (unat b)) :: nat) = unat b"
    by simp
  then show "(of_char (char_of (unat b)) :: nat) < 128"
    and "word_of_nat (of_char (char_of (unat b))) = b"
    using assms by simp_all
qed

lemma encode_decode:
  assumes "list_all (\<lambda>b. unat b < 128) bs"
  shows "encode_ascii (map (\<lambda>b. char_of (unat b)) bs) = Inr bs"
proof -
  from assms have ascii: "unat b < 128" if "b \<in> set bs" for b
    using that by (simp add: list_all_iff)
  have "list_all (\<lambda>c. (of_char c :: nat) < 128) (map (\<lambda>b. char_of (unat b)) bs)"
    unfolding list_all_iff
  proof
    fix c
    assume "c \<in> set (map (\<lambda>b. char_of (unat b)) bs)"
    then obtain b where "b \<in> set bs" "c = char_of (unat b)"
      by auto
    with ascii encode_decode_byte(1) show "(of_char c :: nat) < 128"
      by blast
  qed
  moreover have "map (\<lambda>c. word_of_nat (of_char c)) (map (\<lambda>b. char_of (unat b)) bs) = bs"
  proof -
    have "word_of_nat (of_char (char_of (unat b))) = b" if "b \<in> set bs" for b
      using ascii [OF that] by (rule encode_decode_byte(2))
    then have "map ((\<lambda>c. word_of_nat (of_char c)) \<circ> (\<lambda>b. char_of (unat b))) bs = bs"
      by (intro map_idI) (simp only: comp_apply)
    then show ?thesis
      by (simp only: map_map)
  qed
  ultimately show ?thesis
    by (simp only: encode_ascii_def if_True)
qed

lemma from_decoded_text_ascii:
  assumes "list_all (\<lambda>b. unat b < 128) (bytes s)"
  shows "from_decoded_text s = Inr (s\<lparr>seq_id := [], description := [], quality := None\<rparr>)"
  using assms
  by (cases s)
    (simp add: from_decoded_text_def seq_str_def seq_string_def decode_ascii_def
      Sequence_init_text encode_decode)

lemma from_decoded_text_non_ascii:
  "\<not> list_all (\<lambda>b. unat b < 128) (bytes s) \<Longrightarrow> from_decoded_text s = Inl DecodingError"
  by (simp add: from_decoded_text_def seq_str_def seq_string_def decode_ascii_def)

text \<open>
  Claim C6, as amended. For every sequence whose symbols are all ASCII (codes below
  128), constructing a new sequence of the same class from its decoded text yields a
  sequence with the same symbols and the default id, description and quality. It equals
  the original when id, description and quality are ignored, and it equals the original
  under the full check (empty ignore set) exactly when the original's id and description
  are empty and it has no quality. A sequence that holds a symbol code of 128 or more has
  no decoded text: decoding fails.
\<close>

theorem decoded_text_round_trip:
  "(list_all (\<lambda>b. unat b < 128) (bytes s) \<longrightarrow>
      from_decoded_text s = Inr (s\<lparr>seq_id := [], description := [], quality := None\<rparr>) \<and>
      equals (s\<lparr>seq_id := [], description := [], quality := None\<rparr>) s
        [''id'', ''description'', ''quality''] \<and>
      (equals (s\<lparr>seq_id := [], description := [], quality := None\<rparr>) s []
         \<longleftrightarrow> seq_id s = [] \<and> description s = [] \<and> quality s = None)) \<and>
   (\<not> list_all (\<lambda>b. unat b < 128) (bytes s) \<longrightarrow> from_decoded_text s = Inl DecodingError)"
  by (auto simp: from_decoded_text_ascii from_decoded_text_non_ascii equals_def
      seq_string_def array_equal_iff simp del: array_equal.simps)

theorem decoded_text_round_trip_witness:
  "from_decoded_text \<lparr>cls = Sequence, bytes = [71, 71, 85], seq_id = [], description = [],
       quality = None\<rparr> =
     Inr \<lparr>cls = Sequence, bytes = [71, 71, 85], seq_id = [], description = [], quality = None\<rparr> \<and>
   equals \<lparr>cls = Sequence, bytes = [71, 71, 85], seq_id = [], description = [], quality = None\<rparr>
     \<lparr>cls = Sequence, bytes = [71, 71, 85], seq_id = [], description = [], quality = None\<rparr> [] \<and>
   from_decoded_text \<lparr>cls = Sequence, bytes = [200], seq_id = [], description = [],
       quality = None\<rparr> = Inl DecodingError"
  using
    decoded_text_round_trip [of "\<lparr>cls = Sequence, bytes = [71, 71, 85], seq_id = [],
       description = [], quality = None\<rparr>"]
    decoded_text_round_trip [of "\<lparr>cls = Sequence, bytes = [200], seq_id = [],
       description = [], quality = None\<rparr>"]
  by simp

text \<open>
  Claim C6 as stated fails: a sequence with an id is rebuilt from its text without the
  id, so the full equality check is false.
\<close>

theorem decoded_text_round_trip_counterexample:
  "from_decoded_text \<lparr>cls = Sequence, bytes = [65], seq_id = ''x'', description = [],
       quality = None\<rparr> =
     Inr \<lparr>cls = Sequence, bytes = [65], seq_id = [], description = [], quality = None\<rparr> \<and>
   \<not> equals \<lparr>cls = Sequence, bytes = [65], seq_id = [], description = [], quality = None\<rparr>
     \<lparr>cls = Sequence, bytes = [65], seq_id = ''x'', description = [], quality = None\<rparr> []"
  by (simp add: from_decoded_text_ascii equals_def)

section \<open>Properties of searching\<close>

lemma count_occ_positions: "count_occ sub xs = length (occ_positions sub xs pos)"
proof (induction sub xs pos rule: occ_positions.induct)
  case (1 sub xs pos)
  show ?case
    using "1.IH"
    by (subst count_occ.simps, subst occ_positions.simps) simp
qed

lemma occ_positions_occur:
  "p \<in> set (occ_positions sub xs pos) \<Longrightarrow>
   pos \<le> p \<and> (p - pos) + length sub \<le> length xs \<and> take (length sub) (drop (p - pos) xs) = sub"
proof (induction sub xs pos rule: occ_positions.induct)
  case (1 sub xs pos)
  show ?case
  proof (cases "sub = [] \<or> length xs < length sub")
    case True
    with "1.prems" show ?thesis
      by (subst (asm) occ_positions.simps) simp
  next
    case False
    show ?thesis
    proof (cases "take (length sub) xs = sub")
      case True
      from "1.prems" False True
      have "p = pos \<or> p \<in> set (occ_positions sub (drop (length sub) xs) (pos + length sub))"
        by (subst (asm) occ_positions.simps) auto
      then show ?thesis
      proof
        assume "p = pos"
        with False True show ?thesis by simp
      next
        assume "p \<in> set (occ_positions sub (drop (length sub) xs) (pos + length sub))"
        from "1.IH"(1) [OF False True this] False show ?thesis
          by (auto simp: add.commute)
      qed
    next
      case sub_no: False
      from "1.prems" False sub_no
      have "p \<in> set (occ_positions sub (tl xs) (Suc pos))"
        by (subst (asm) occ_positions.simps) auto
      from "1.IH"(2) [OF False sub_no this]
      have le: "Suc pos \<le> p" and fit: "(p - Suc pos) + length sub \<le> length (tl xs)"
        and occ: "take (length sub) (drop (p - Suc pos) (tl xs)) = sub"
        by blast+
      from False have "0 < length xs"
        by auto
      moreover have "length (tl xs) = length xs - 1"
        by simp
      ultimately have "pos \<le> p" "(p - pos) + length sub \<le> length xs"
        using le fit by linarith+
      moreover have "drop (p - Suc pos) (tl xs) = drop (p - pos) xs"
      proof -
        from le have "Suc (p - Suc pos) = p - pos"
          by linarith
        then show ?thesis
          by (simp add: drop_Suc [symmetric] del: drop_Suc)
      qed
      with occ have "take (length sub) (drop (p - pos) xs) = sub"
        by simp
      ultimately show ?thesis
        by simp
    qed
  qed
qed

lemma occ_positions_apart:
  "sorted_wrt (\<lambda>p q. p + length sub \<le> q) (occ_positions sub xs pos)"
proof (induction sub xs pos rule: occ_positions.induct)
  case (1 sub xs pos)
  show ?case
  proof (cases "sub = [] \<or> length xs < length sub")
    case True
    then show ?thesis
      by (subst occ_positions.simps) simp
  next
    case False
    show ?thesis
    proof (cases "take (length sub) xs = sub")
      case True
      have "pos + length sub \<le> q"
        if "q \<in> set (occ_positions sub (drop (length sub) xs) (pos + length sub))" for q
        using occ_positions_occur [OF that] by simp
      with "1.IH"(1) [OF False True] False True show ?thesis
        by (subst occ_positions.simps) simp
    next
      case sub_no: False
      with "1.IH"(2) [OF False sub_no] False show ?thesis
        by (subst occ_positions.simps) simp
    qed
  qed
qed

lemma occ_positions_maximal:
  assumes "sub \<noteq> []" "j + length sub \<le> length xs" "take (length sub) (drop j xs) = sub"
  shows "\<exists>p \<in> set (occ_positions sub xs pos). p \<le> pos + j \<and> pos + j < p + length sub"
  using assms
proof (induction sub xs pos arbitrary: j rule: occ_positions.induct)
  case (1 sub xs pos)
  from "1.prems" have go: "\<not> (sub = [] \<or> length xs < length sub)"
    by auto
  from "1.prems"(1) have m: "0 < length sub"
    by simp
  show ?case
  proof (cases "take (length sub) xs = sub")
    case True
    have unfold: "occ_positions sub xs pos =
        pos # occ_positions sub (drop (length sub) xs) (pos + length sub)"
      using go True by (subst occ_positions.simps) simp
    show ?thesis
    proof (cases "j < length sub")
      case True
      with m show ?thesis
        unfolding unfold by (intro bexI [of _ pos]) simp_all
    next
      case False
      then have j: "length sub \<le> j" by simp
      with "1.prems" have "(j - length sub) + length sub \<le> length (drop (length sub) xs)"
        and "take (length sub) (drop (j - length sub) (drop (length sub) xs)) = sub"
        by simp_all
      from "1.IH"(1) [OF go True "1.prems"(1) this]
      obtain p where "p \<in> set (occ_positions sub (drop (length sub) xs) (pos + length sub))"
        and "p \<le> pos + length sub + (j - length sub)"
        and "pos + length sub + (j - length sub) < p + length sub"
        by blast
      with j show ?thesis
        unfolding unfold by (intro bexI [of _ p]) simp_all
    qed
  next
    case False
    have unfold: "occ_positions sub xs pos = occ_positions sub (tl xs) (Suc pos)"
      using go False by (subst occ_positions.simps) simp
    from False "1.prems"(3) have j: "0 < j"
      by (cases j) auto
    then have "drop (j - 1) (tl xs) = drop j xs"
      by (cases j) (simp_all add: drop_Suc)
    with "1.prems" j have "(j - 1) + length sub \<le> length (tl xs)"
      and "take (length sub) (drop (j - 1) (tl xs)) = sub"
      by simp_all
    from "1.IH"(2) [OF go False "1.prems"(1) this]
    obtain p where "p \<in> set (occ_positions sub (tl xs) (Suc pos))"
      and "p \<le> Suc pos + (j - 1)" and "Suc pos + (j - 1) < p + length sub"
      by blast
    with j show ?thesis
      unfolding unfold by (intro bexI [of _ p]) simp_all
  qed
qed

lemma occ_positions_longest:
  assumes "sub \<noteq> []"
    and "sorted_wrt (\<lambda>p q. p + length sub \<le> q) occ"
    and "\<forall>q \<in> set occ. pos \<le> q \<and> (q - pos) + length sub \<le> length xs \<and>
           take (length sub) (drop (q - pos) xs) = sub"
  shows "length occ \<le> length (occ_positions sub xs pos)"
  using assms
proof (induction sub xs pos arbitrary: occ rule: occ_positions.induct)
  case (1 sub xs pos)
  let ?m = "length sub"
  from "1.prems"(1) have m: "0 < ?m"
    by simp
  show ?case
  proof (cases "length xs < ?m")
    case True
    have "occ = []"
    proof (cases occ)
      case (Cons q qs)
      with "1.prems"(3) have "pos \<le> q" "(q - pos) + ?m \<le> length xs"
        by auto
      with True show ?thesis
        by linarith
    qed simp
    then show ?thesis
      by simp
  next
    case False
    with "1.prems"(1) have go: "\<not> (sub = [] \<or> length xs < ?m)"
      by simp
    show ?thesis
    proof (cases "take ?m xs = sub")
      case True
      have unfold: "occ_positions sub xs pos =
          pos # occ_positions sub (drop ?m xs) (pos + ?m)"
        using go True by (subst occ_positions.simps) simp
      show ?thesis
      proof (cases occ)
        case Nil
        then show ?thesis
          by simp
      next
        case (Cons q qs)
        from "1.prems"(2) Cons have apart: "sorted_wrt (\<lambda>p q. p + ?m \<le> q) qs"
          and behind: "\<forall>r \<in> set qs. q + ?m \<le> r"
          by simp_all
        from "1.prems"(3) Cons have q: "pos \<le> q"
          by simp
        have "pos + ?m \<le> r \<and> (r - (pos + ?m)) + ?m \<le> length (drop ?m xs) \<and>
            take ?m (drop (r - (pos + ?m)) (drop ?m xs)) = sub" if "r \<in> set qs" for r
        proof -
          from that behind q have r: "pos + ?m \<le> r"
            by fastforce
          from that "1.prems"(3) Cons have fit: "(r - pos) + ?m \<le> length xs"
            and eq: "take ?m (drop (r - pos) xs) = sub"
            by auto
          from r have "r - (pos + ?m) + ?m = r - pos"
            by linarith
          then have "drop (r - (pos + ?m)) (drop ?m xs) = drop (r - pos) xs"
            by simp
          with r fit eq show ?thesis
            by simp
        qed
        then have "\<forall>r \<in> set qs. pos + ?m \<le> r \<and>
            (r - (pos + ?m)) + ?m \<le> length (drop ?m xs) \<and>
            take ?m (drop (r - (pos + ?m)) (drop ?m xs)) = sub"
          by blast
        from "1.IH"(1) [OF go True "1.prems"(1) apart this] Cons show ?thesis
          unfolding unfold by simp
      qed
    next
      case no: False
      have unfold: "occ_positions sub xs pos = occ_positions sub (tl xs) (Suc pos)"
        using go no by (subst occ_positions.simps) simp
      have "Suc pos \<le> q \<and> (q - Suc pos) + ?m \<le> length (tl xs) \<and>
          take ?m (drop (q - Suc pos) (tl xs)) = sub" if "q \<in> set occ" for q
      proof -
        from that "1.prems"(3) have le: "pos \<le> q" and fit: "(q - pos) + ?m \<le> length xs"
          and eq: "take ?m (drop (q - pos) xs) = sub"
          by auto
        from eq no have "q \<noteq> pos"
          by auto
        with le have q: "Suc pos \<le> q"
          by simp
        then have suc: "Suc (q - Suc pos) = q - pos"
          by linarith
        then have "drop (q - Suc pos) (tl xs) = drop (q - pos) xs"
          by (simp add: drop_Suc [symmetric] del: drop_Suc)
        moreover from fit suc have "(q - Suc pos) + ?m \<le> length (tl xs)"
          by simp
        ultimately show ?thesis
          using q eq by simp
      qed
      then have "\<forall>q \<in> set occ. Suc pos \<le> q \<and> (q - Suc pos) + ?m \<le> length (tl xs) \<and>
          take ?m (drop (q - Suc pos) (tl xs)) = sub"
        by blast
      from "1.IH"(2) [OF go no "1.prems"(1) "1.prems"(2) this] show ?thesis
        unfolding unfold .
    qed
  qed
qed

lemma adjust_indices_bounds:
  assumes "adjust_indices st en n = (b, e)"
  shows "0 \<le> b" "0 \<le> e" "e \<le> int n"
  using assms by (auto simp: adjust_indices_def Let_def split: option.splits if_splits)

lemma window_occurrence:
  assumes "j + m \<le> hi - lo" "hi \<le> length xs"
  shows "take m (drop j (take (hi - lo) (drop lo xs))) = take m (drop (lo + j) xs)"
proof -
  have "drop j (take (hi - lo) (drop lo xs)) = take (hi - lo - j) (drop (lo + j) xs)"
    by (simp add: drop_take add.commute)
  moreover from assms have "min m (hi - lo - j) = m"
    by linarith
  ultimately show ?thesis
    by (simp add: min.commute)
qed

lemma bytes_count_occurrences:
  assumes "sub \<noteq> []"
  shows "counts_occurrences (bytes_count xs sub st en) sub xs
           (window_lo st en (length xs)) (window_hi st en (length xs))"
proof -
  obtain b e where be: "adjust_indices st en (length xs) = (b, e)"
    by (cases "adjust_indices st en (length xs)")
  note bounds = adjust_indices_bounds [OF be]
  let ?lo = "nat b" and ?hi = "nat e" and ?m = "length sub"
  have lo: "window_lo st en (length xs) = ?lo" and hi: "window_hi st en (length xs) = ?hi"
    by (simp_all add: window_lo_def window_hi_def be)
  from bounds have hi_le: "?hi \<le> length xs"
    by linarith
  from assms have m: "0 < ?m"
    by simp
  show ?thesis
  proof (cases "e - b < 0")
    case True
    with bounds have "?hi < ?lo"
      by linarith
    with m have none: "\<not> occurs_at sub xs ?lo ?hi p" for p
      by (auto simp: occurs_at_def)
    have "occ = []" if "apart_occurrences sub xs ?lo ?hi occ" for occ
      using that none by (cases occ) (auto simp: apart_occurrences_def)
    moreover from True have "bytes_count xs sub st en = 0"
      by (simp add: bytes_count_def be)
    ultimately show ?thesis
      unfolding counts_occurrences_def lo hi using none
      by (auto simp: apart_occurrences_def intro!: exI [of _ "[]"])
  next
    case False
    with bounds have le: "?lo \<le> ?hi" and len: "nat (e - b) = ?hi - ?lo"
      by linarith+
    let ?w = "take (?hi - ?lo) (drop ?lo xs)"
    let ?occ = "occ_positions sub ?w ?lo"
    have w: "window xs b e = ?w"
      by (simp add: window_def len)
    from hi_le le have wlen: "length ?w = ?hi - ?lo"
      by simp
    have count: "bytes_count xs sub st en = length ?occ"
      using False assms by (simp add: bytes_count_def be w count_occ_positions [of sub ?w ?lo])
    have occ: "occurs_at sub xs ?lo ?hi p" if "p \<in> set ?occ" for p
    proof -
      from occ_positions_occur [OF that]
      have p: "?lo \<le> p" and fit: "(p - ?lo) + ?m \<le> length ?w"
        and eq: "take ?m (drop (p - ?lo) ?w) = sub"
        by blast+
      from fit wlen have fit': "(p - ?lo) + ?m \<le> ?hi - ?lo"
        by simp
      have "take ?m (drop p xs) = sub"
        using window_occurrence [OF fit' hi_le] eq p by simp
      moreover from p fit' le have "p + ?m \<le> ?hi"
        by linarith
      ultimately show ?thesis
        using p hi_le by (simp add: occurs_at_def)
    qed
    have rel: "?lo \<le> p' \<and> (p' - ?lo) + ?m \<le> length ?w \<and> take ?m (drop (p' - ?lo) ?w) = sub"
      if "occurs_at sub xs ?lo ?hi p'" for p'
    proof -
      from that have p': "?lo \<le> p'" and fit: "p' + ?m \<le> ?hi"
        and eq: "take ?m (drop p' xs) = sub"
        by (simp_all add: occurs_at_def)
      from p' fit have fit': "(p' - ?lo) + ?m \<le> ?hi - ?lo"
        by linarith
      with wlen have fitw: "(p' - ?lo) + ?m \<le> length ?w"
        by simp
      from window_occurrence [OF fit' hi_le] eq p' have "take ?m (drop (p' - ?lo) ?w) = sub"
        by simp
      with p' fitw show ?thesis
        by simp
    qed
    have max: "\<exists>p \<in> set ?occ. p \<le> p' \<and> p' < p + ?m" if "occurs_at sub xs ?lo ?hi p'" for p'
    proof -
      from rel [OF that] have p': "?lo \<le> p'" and fitw: "(p' - ?lo) + ?m \<le> length ?w"
        and eq: "take ?m (drop (p' - ?lo) ?w) = sub"
        by blast+
      from occ_positions_maximal [OF assms fitw eq, of ?lo] p' show ?thesis
        by simp
    qed
    have longest: "length occ \<le> length ?occ" if "apart_occurrences sub xs ?lo ?hi occ" for occ
    proof (rule occ_positions_longest [OF assms])
      from that show "sorted_wrt (\<lambda>p q. p + ?m \<le> q) occ"
        by (simp add: apart_occurrences_def)
      from that rel show "\<forall>q \<in> set occ. ?lo \<le> q \<and> (q - ?lo) + ?m \<le> length ?w \<and>
          take ?m (drop (q - ?lo) ?w) = sub"
        unfolding apart_occurrences_def by blast
    qed
    show ?thesis
      unfolding counts_occurrences_def lo hi
    proof (intro exI [of _ ?occ] conjI allI impI)
      show "bytes_count xs sub st en = length ?occ"
        by (rule count)
      show "apart_occurrences sub xs ?lo ?hi ?occ"
        unfolding apart_occurrences_def using occ occ_positions_apart [of sub ?w ?lo] by blast
      show "\<exists>p \<in> set ?occ. p \<le> p' \<and> p' < p + ?m" if "occurs_at sub xs ?lo ?hi p'" for p'
        using max [OF that] .
      show "length occ \<le> bytes_count xs sub st en"
        if "apart_occurrences sub xs ?lo ?hi occ" for occ
        using longest [OF that] count by simp
    qed
  qed
qed

lemma counts_occurrences_unique:
  assumes "counts_occurrences n sub xs lo hi" "counts_occurrences n' sub xs lo hi"
  shows "n = n'"
proof -
  from assms(1) obtain occ where "n = length occ" "apart_occurrences sub xs lo hi occ"
    and top: "\<forall>occ. apart_occurrences sub xs lo hi occ \<longrightarrow> length occ \<le> n"
    unfolding counts_occurrences_def by blast
  moreover from assms(2) obtain occ' where "n' = length occ'"
    "apart_occurrences sub xs lo hi occ'"
    and "\<forall>occ. apart_occurrences sub xs lo hi occ \<longrightarrow> length occ \<le> n'"
    unfolding counts_occurrences_def by blast
  ultimately have "n \<le> n'" "n' \<le> n"
    by blast+
  then show ?thesis
    by simp
qed

lemma counts_occurrences_iff:
  assumes "sub \<noteq> []"
  shows "counts_occurrences n sub xs (window_lo st en (length xs)) (window_hi st en (length xs))
     \<longleftrightarrow> n = bytes_count xs sub st en"
  using counts_occurrences_unique [OF _ bytes_count_occurrences [OF assms]]
    bytes_count_occurrences [OF assms] by blast


lemma encode_ascii_error: "encode_ascii t = Inl e \<Longrightarrow> e = EncodingError"
  by (auto simp: encode_ascii_def split: if_splits)




lemma munge_text:
  "munge_to_sequence s (InRaw (Text t)) =
     (case encode_ascii t of
        Inl e \<Rightarrow> Inl EncodingError
      | Inr bs \<Rightarrow> Inr \<lparr>cls = Sequence, bytes = bs, seq_id = [], description = [], quality = None\<rparr>)"
  by (auto simp: munge_to_sequence_def Sequence_init_def set_sequence_def set_quality_def
      dest: encode_ascii_error split: sum.splits)







lemma count_examples:
  "count \<lparr>cls = Sequence, bytes = [71, 71, 85, 67, 71], seq_id = [], description = [],
       quality = None\<rparr> (InRaw (Text ''G'')) None None = Inr 3"
  "count \<lparr>cls = Sequence, bytes = [71, 71, 85, 67, 71], seq_id = [], description = [],
       quality = None\<rparr> (InRaw (Text ''GG'')) None None = Inr 1"
  "count \<lparr>cls = Sequence, bytes = [71, 71, 85, 67, 71], seq_id = [], description = [],
       quality = None\<rparr> (InRaw (Text ''T'')) None None = Inr 0"
  by (simp_all add: count_def operand_len_def munge_text encode_ascii_def bytes_count_def
      adjust_indices_def window_def seq_string_def count_occ.simps)

text \<open>
  Occurrences that overlap: \<open>abab\<close> occurs in \<open>abababab\<close> at the positions 0, 2 and 4, and
  the number counted is 2 and no other.
\<close>

lemma count_overlapping_example:
  "count \<lparr>cls = Sequence, bytes = [97, 98, 97, 98, 97, 98, 97, 98], seq_id = [],
       description = [], quality = None\<rparr> (InRaw (Text ''abab'')) None None = Inr 2"
  "counts_occurrences n [97, 98, 97, 98 :: byte] [97, 98, 97, 98, 97, 98, 97, 98] 0 8 \<longleftrightarrow> n = 2"
proof -
  show "count \<lparr>cls = Sequence, bytes = [97, 98, 97, 98, 97, 98, 97, 98], seq_id = [],
       description = [], quality = None\<rparr> (InRaw (Text ''abab'')) None None = Inr 2"
    by (simp add: count_def operand_len_def munge_text encode_ascii_def bytes_count_def
        adjust_indices_def window_def seq_string_def count_occ.simps)
  have "bytes_count [97, 98, 97, 98, 97, 98, 97, 98 :: byte] [97, 98, 97, 98] None None = 2"
    by (simp add: bytes_count_def adjust_indices_def window_def count_occ.simps)
  with counts_occurrences_iff [of "[97, 98, 97, 98 :: byte]" n
      "[97, 98, 97, 98, 97, 98, 97, 98]" None None]
  show "counts_occurrences n [97, 98, 97, 98 :: byte] [97, 98, 97, 98, 97, 98, 97, 98] 0 8
      \<longleftrightarrow> n = 2"
    by (simp add: window_lo_def window_hi_def adjust_indices_def)
qed



lemma window_lo_unspecified: "window_lo None en n = 0"
  by (simp add: window_lo_def adjust_indices_def Let_def)

lemma window_unspecified_ordered: "window_lo None en n \<le> window_hi None en n"
  by (simp add: window_lo_unspecified)





section \<open>Properties of indexing with a mixed iterable\<close>















lemma closed_slice_minus_one:
  "slice_elems xs (Slice (Some (- 1)) (Some 0) None) = []"
  by (simp add: slice_elems_def np_slice_def slice_indices_def clamp_bound_def Let_def
      py_range_def range_len_def)




section \<open>Properties of the slices from a regular expression\<close>



















text \<open>
  Two spans outside \<open>0 \<le> start < end \<le> length lookup\<close>, read as Python reads them: a
  group that took no part in the match has the span \<open>(-1, -1)\<close>, and both reads wrap
  around to the end of \<open>lookup\<close>; a group that matched the empty text at the end of the
  text has \<open>start = length lookup\<close>, and the read fails.
\<close>

lemma emit_groups_edge_cases:
  "emit_groups [0, 1, 4, 5] [(- 1, - 1)] = ([Slice (Some 5) (Some 5) None], None)"
  "emit_groups [0, 1, 4, 5] [(4, 4)] = ([], Some OutOfBoundsError)"
  by (simp_all add: np_index_def)

end
